theory Spec2Isabelle
  imports Complex_Main "HOL-Library.Product_Lexorder"
begin

section \<open>Data model (pkg/models)\<close>

text \<open>
  Go's \<open>float64\<close> scores are modelled as real numbers, so the arithmetic of boost and
  decay is exact. A \<open>time.Time\<close> is an integer number of seconds on one time line;
  the text encoding the database driver gives a timestamp is not modelled.
  The string types \<open>MemoryType\<close>, \<open>MemoryScope\<close> and \<open>SourceType\<close> are strings, as
  in the source. A nil slice is \<open>None\<close>, since encoding/json writes it as \<open>null\<close>.
\<close>

type_synonym time = int

definition day :: time where
  "day = 86400"

definition MemoryTypeDecision :: string where "MemoryTypeDecision = ''decision''"
definition MemoryTypePattern :: string where "MemoryTypePattern = ''pattern''"
definition MemoryTypeFact :: string where "MemoryTypeFact = ''fact''"
definition MemoryTypePreference :: string where "MemoryTypePreference = ''preference''"
definition MemoryTypeMistake :: string where "MemoryTypeMistake = ''mistake''"
definition MemoryTypeLearning :: string where "MemoryTypeLearning = ''learning''"

definition MemoryScopePersonal :: string where "MemoryScopePersonal = ''personal''"
definition MemoryScopeProject :: string where "MemoryScopeProject = ''project''"
definition MemoryScopeTeam :: string where "MemoryScopeTeam = ''team''"
definition MemoryScopeOrg :: string where "MemoryScopeOrg = ''org''"

definition SourceTypeGit :: string where "SourceTypeGit = ''git''"
definition SourceTypeManual :: string where "SourceTypeManual = ''manual''"

record Source =
  SourceType :: string
  Reference :: string
  SourceTimestamp :: time

text \<open>
  The \<open>Embedding\<close> field is left out: \<open>CreateMemory\<close> always stores NULL for it and no
  operation below reads it.
\<close>

record Memory =
  ID :: string
  Type :: string
  Content :: string
  Summary :: string
  Scope :: string
  ProjectID :: "string option"
  TeamID :: "string option"
  Source :: Source
  Confidence :: real
  Importance :: real
  Topics :: "string list option"
  RelatedMemories :: "string list option"
  CreatedAt :: time
  LastAccessedAt :: time
  AccessCount :: int
  ExpiresAt :: "time option"

text \<open>The payload map of an event is kept as an association list of rendered values.\<close>

record Event =
  EventID :: string
  EventType :: string
  Timestamp :: time
  Data :: "(string \<times> string) list"
  EventProjectID :: "string option"

record RecallRequest =
  Query :: string
  ReqScope :: "string list"
  ReqProjectID :: "string option"
  ReqTypes :: "string list"
  Limit :: int

record ExtractedMemory =
  ExType :: string
  ExContent :: string
  ExSummary :: string
  ExConfidence :: real
  ExTopics :: "string list option"


section \<open>The store (internal/store)\<close>

text \<open>
  A store is the content of the two tables the operations below touch: the rows of
  \<open>memories\<close> and the rows of \<open>events\<close>, each in insertion order. An event row is the
  event together with its \<open>processed_at\<close> column. The engine is taken to execute every
  statement; the failures modelled are the constraint violations the schema declares
  (primary keys and the two CHECK constraints).
\<close>

record EventRow =
  event :: Event
  processed_at :: "time option"

record Store =
  memories :: "Memory list"
  events :: "EventRow list"

datatype error = StorageError | RequestFailed | OllamaError | DecodeFailed | ParseFailed

definition migrate :: Store where
  "migrate = \<lparr>memories = [], events = []\<rparr>"

definition check_type :: "string \<Rightarrow> bool" where
  "check_type t \<longleftrightarrow> t \<in> set [''decision'', ''pattern'', ''fact'', ''preference'', ''mistake'', ''learning'']"

definition check_scope :: "string \<Rightarrow> bool" where
  "check_scope s \<longleftrightarrow> s \<in> set [''personal'', ''project'', ''team'', ''org'']"

definition CreateMemory :: "Memory \<Rightarrow> Store \<Rightarrow> error + Store" where
  "CreateMemory m s =
     (if ID m \<in> set (map ID (memories s)) \<or> \<not> check_type (Type m) \<or> \<not> check_scope (Scope m)
      then Inl StorageError
      else Inr (s\<lparr>memories := memories s @ [m]\<rparr>))"

definition boost :: "time \<Rightarrow> Memory \<Rightarrow> Memory" where
  "boost now m = m\<lparr>LastAccessedAt := now,
                    AccessCount := AccessCount m + 1,
                    Importance := min 1.0 (Importance m * 1.05)\<rparr>"

definition recordAccess :: "time \<Rightarrow> string \<Rightarrow> Store \<Rightarrow> Store" where
  "recordAccess now memoryID s =
     s\<lparr>memories := map (\<lambda>m. if ID m = memoryID then boost now m else m) (memories s)\<rparr>"

definition decays :: "time \<Rightarrow> Memory \<Rightarrow> bool" where
  "decays now m \<longleftrightarrow> Importance m > 0.1 \<and> LastAccessedAt m < now - day"

definition DecayImportance :: "time \<Rightarrow> Store \<Rightarrow> Store" where
  "DecayImportance now s =
     s\<lparr>memories := map (\<lambda>m. if decays now m then m\<lparr>Importance := Importance m * 0.99\<rparr> else m)
                        (memories s)\<rparr>"

definition CreateEvent :: "Event \<Rightarrow> Store \<Rightarrow> error + Store" where
  "CreateEvent e s =
     (if EventID e \<in> set (map (EventID \<circ> event) (events s))
      then Inl StorageError
      else Inr (s\<lparr>events := events s @ [\<lparr>event = e, processed_at = None\<rparr>]\<rparr>))"

definition MarkEventProcessed :: "time \<Rightarrow> string \<Rightarrow> Store \<Rightarrow> Store" where
  "MarkEventProcessed now eventID s =
     s\<lparr>events := map (\<lambda>r. if EventID (event r) = eventID then r\<lparr>processed_at := Some now\<rparr> else r)
                      (events s)\<rparr>"

subsection \<open>Recall\<close>

text \<open>
  SQLite's \<open>LIKE\<close>: \<open>%\<close> in the pattern matches any run of characters, \<open>_\<close> matches
  any one character, and every other character matches itself with the ASCII letters
  compared without regard to case.
\<close>

definition fold_case :: "char \<Rightarrow> char" where
  "fold_case c =
     (case map_of (zip ''ABCDEFGHIJKLMNOPQRSTUVWXYZ'' ''abcdefghijklmnopqrstuvwxyz'') c of
        None \<Rightarrow> c
      | Some l \<Rightarrow> l)"

fun sql_like :: "string \<Rightarrow> string \<Rightarrow> bool" where
  "sql_like [] t = (t = [])"
| "sql_like (p # ps) [] = (p = CHR ''%'' \<and> sql_like ps [])"
| "sql_like (p # ps) (c # cs) =
     (if p = CHR ''%'' then sql_like ps (c # cs) \<or> sql_like (p # ps) cs
      else (p = CHR ''_'' \<or> fold_case p = fold_case c) \<and> sql_like ps cs)"

definition searchTerm :: "string \<Rightarrow> string" where
  "searchTerm q = ''%'' @ q @ ''%''"

text \<open>
  The WHERE clause that \<open>Recall\<close> builds. The \<open>topics\<close> column holds the JSON text of the
  topic list; \<open>enc\<close> is encoding/json's rendering of a string slice.
\<close>

definition selects :: "(string list option \<Rightarrow> string) \<Rightarrow> RecallRequest \<Rightarrow> Memory \<Rightarrow> bool" where
  "selects enc req m \<longleftrightarrow>
     (ReqScope req = [] \<or> Scope m \<in> set (ReqScope req)) \<and>
     (ReqTypes req = [] \<or> Type m \<in> set (ReqTypes req)) \<and>
     (case ReqProjectID req of None \<Rightarrow> True
      | Some p \<Rightarrow> ProjectID m = Some p \<or> ProjectID m = None) \<and>
     (Query req = [] \<or>
        sql_like (searchTerm (Query req)) (Content m) \<or>
        sql_like (searchTerm (Query req)) (Summary m) \<or>
        sql_like (searchTerm (Query req)) (enc (Topics m)))"

text \<open>\<open>ORDER BY importance DESC, last_accessed_at DESC\<close>, as an ascending sort key.\<close>

definition order_key :: "Memory \<Rightarrow> real \<times> int" where
  "order_key m = (- Importance m, - LastAccessedAt m)"

definition limit_of :: "RecallRequest \<Rightarrow> int" where
  "limit_of req = (if Limit req \<le> 0 then 5 else Limit req)"

definition query_rows :: "(string list option \<Rightarrow> string) \<Rightarrow> RecallRequest \<Rightarrow> Store \<Rightarrow> Memory list" where
  "query_rows enc req s =
     take (nat (limit_of req)) (sort_key order_key (filter (selects enc req) (memories s)))"

text \<open>
  The loop over the result rows: row \<open>i\<close> is appended to the result and its access is
  recorded at the clock reading \<open>clock i\<close>. The rows are those of the statement's snapshot.
\<close>

fun record_rows :: "(nat \<Rightarrow> time) \<Rightarrow> nat \<Rightarrow> Memory list \<Rightarrow> Store \<Rightarrow> Store" where
  "record_rows clock i [] s = s"
| "record_rows clock i (m # ms) s = record_rows clock (Suc i) ms (recordAccess (clock i) (ID m) s)"

definition Recall ::
  "(string list option \<Rightarrow> string) \<Rightarrow> (nat \<Rightarrow> time) \<Rightarrow> RecallRequest \<Rightarrow> Store \<Rightarrow> Memory list \<times> Store" where
  "Recall enc clock req s =
     (let rows = query_rows enc req s in (rows, record_rows clock 0 rows s))"


section \<open>Extraction (internal/extractor)\<close>

text \<open>
  What the call to the model produced, as \<open>Extract\<close> sees it: the request failed, the
  status was not 200, the response envelope did not decode, the text in it did not parse,
  or it parsed to a list of candidates.
\<close>

datatype reply =
  NoResponse
| BadStatus
| BadEnvelope
| BadJSON
| Parsed "ExtractedMemory list"

definition Extract :: "reply \<Rightarrow> Event list \<Rightarrow> error + ExtractedMemory list" where
  "Extract r evs =
     (if evs = [] then Inr []
      else case r of
        NoResponse \<Rightarrow> Inl RequestFailed
      | BadStatus \<Rightarrow> Inl OllamaError
      | BadEnvelope \<Rightarrow> Inl DecodeFailed
      | BadJSON \<Rightarrow> Inl ParseFailed
      | Parsed ms \<Rightarrow> Inr (filter (\<lambda>m. ExConfidence m \<ge> 0.6) ms))"

definition NullExtract :: "Event list \<Rightarrow> error + ExtractedMemory list" where
  "NullExtract evs = Inr []"


section \<open>The agent (internal/agent)\<close>

text \<open>
  The readings a run of \<open>processBatch\<close> takes from its environment: the identifier
  \<open>ulid.Make()\<close> yields and the time \<open>time.Now()\<close> yields in iteration \<open>i\<close> of the loop
  over the candidates, and the time at which event \<open>i\<close> is marked.
\<close>

record Readings =
  ulid_at :: "nat \<Rightarrow> string"
  now_at :: "nat \<Rightarrow> time"
  marked_at :: "nat \<Rightarrow> time"

definition extracted_memory :: "string \<Rightarrow> time \<Rightarrow> ExtractedMemory \<Rightarrow> Memory" where
  "extracted_memory ident now ext =
     \<lparr>ID = ident,
      Type = ExType ext,
      Content = ExContent ext,
      Summary = ExSummary ext,
      Scope = MemoryScopePersonal,
      ProjectID = None,
      TeamID = None,
      Source = \<lparr>SourceType = SourceTypeGit, Reference = ''batch'', SourceTimestamp = now\<rparr>,
      Confidence = ExConfidence ext,
      Importance = 1.0,
      Topics = ExTopics ext,
      RelatedMemories = None,
      CreatedAt = now,
      LastAccessedAt = now,
      AccessCount = 0,
      ExpiresAt = None\<rparr>"

text \<open>
  The loop over the candidates. A candidate the store rejects is skipped. The embedding
  step that follows a successful insert writes the embedding column only.
\<close>

fun create_memories :: "Readings \<Rightarrow> nat \<Rightarrow> ExtractedMemory list \<Rightarrow> Store \<Rightarrow> Store" where
  "create_memories rd i [] s = s"
| "create_memories rd i (ext # exts) s =
     (case CreateMemory (extracted_memory (ulid_at rd i) (now_at rd i) ext) s of
        Inl err \<Rightarrow> create_memories rd (Suc i) exts s
      | Inr s' \<Rightarrow> create_memories rd (Suc i) exts s')"

fun mark_events :: "Readings \<Rightarrow> nat \<Rightarrow> Event list \<Rightarrow> Store \<Rightarrow> Store" where
  "mark_events rd i [] s = s"
| "mark_events rd i (e # es) s =
     mark_events rd (Suc i) es (MarkEventProcessed (marked_at rd i) (EventID e) s)"

definition processBatch ::
  "(Event list \<Rightarrow> error + ExtractedMemory list) \<Rightarrow> Readings \<Rightarrow> Event list \<Rightarrow> Store \<Rightarrow> Store" where
  "processBatch extract rd evs s =
     (case extract evs of
        Inl err \<Rightarrow> mark_events rd 0 evs s
      | Inr extracted \<Rightarrow> mark_events rd 0 evs (create_memories rd 0 extracted s))"

subsection \<open>The event loop\<close>

text \<open>
  One iteration of the \<open>select\<close> in \<open>processEvents\<close>, for the case that fired. Beside
  the store and the batch, the state keeps the calls made so far to \<open>processBatch\<close> and to
  \<open>timer.Reset\<close>, in order. \<open>pb\<close> is \<open>processBatch\<close> with its extractor and readings.
\<close>

record Config =
  BatchSize :: int
  BatchWait :: int

definition DefaultConfig :: Config where
  "DefaultConfig = \<lparr>BatchSize = 10, BatchWait = 5\<rparr>"

datatype fired = Done | Received Event | TimerFired

datatype call = ProcessBatch "Event list" | TimerReset

record Loop =
  store :: Store
  batch :: "Event list"
  calls :: "call list"
  returned :: bool

definition start_loop :: "Store \<Rightarrow> Loop" where
  "start_loop s = \<lparr>store = s, batch = [], calls = [], returned = False\<rparr>"

definition iteration :: "(Event list \<Rightarrow> Store \<Rightarrow> Store) \<Rightarrow> Config \<Rightarrow> Loop \<Rightarrow> fired \<Rightarrow> Loop" where
  "iteration pb cfg l f =
     (if returned l then l
      else case f of
        Done \<Rightarrow>
          (if length (batch l) > 0
           then l\<lparr>store := pb (batch l) (store l),
                  calls := calls l @ [ProcessBatch (batch l)],
                  returned := True\<rparr>
           else l\<lparr>returned := True\<rparr>)
      | Received e \<Rightarrow>
          (case CreateEvent e (store l) of
             Inl err \<Rightarrow> l
           | Inr s' \<Rightarrow>
               (let b = batch l @ [e] in
                if int (length b) \<ge> BatchSize cfg
                then l\<lparr>store := pb b s',
                       batch := [],
                       calls := calls l @ [ProcessBatch b, TimerReset]\<rparr>
                else l\<lparr>store := s', batch := b\<rparr>))
      | TimerFired \<Rightarrow>
          (if length (batch l) > 0
           then l\<lparr>store := pb (batch l) (store l),
                  batch := [],
                  calls := calls l @ [ProcessBatch (batch l), TimerReset]\<rparr>
           else l\<lparr>calls := calls l @ [TimerReset]\<rparr>))"

definition processEvents :: "(Event list \<Rightarrow> Store \<Rightarrow> Store) \<Rightarrow> Config \<Rightarrow> Loop \<Rightarrow> fired list \<Rightarrow> Loop" where
  "processEvents pb cfg l fs = foldl (iteration pb cfg) l fs"


section \<open>The event queue and its producers (internal/watcher)\<close>

text \<open>
  The buffered channel \<open>eventQueue\<close>: its capacity and the events it holds, oldest first.
  \<open>send_or_drop\<close> is the \<open>select\<close> with a \<open>default\<close> case that every producer ends with:
  it returns the channel and the line logged, if any.
\<close>

record Chan =
  capacity :: nat
  buffered :: "Event list"

definition eventQueue :: Chan where
  "eventQueue = \<lparr>capacity = 10000, buffered = []\<rparr>"

definition send_or_drop :: "string \<Rightarrow> Event \<Rightarrow> Chan \<Rightarrow> Chan \<times> string list" where
  "send_or_drop dropped e q =
     (if length (buffered q) < capacity q
      then (q\<lparr>buffered := buffered q @ [e]\<rparr>, [])
      else (q, [dropped]))"

text \<open>The end of \<open>GitWatcher.checkRepo\<close>, from the construction of the event on.\<close>

definition git_emit :: "string \<Rightarrow> time \<Rightarrow> (string \<times> string) list \<Rightarrow> Chan \<Rightarrow> Chan \<times> string list" where
  "git_emit ident now payload q =
     send_or_drop ''Event queue full, dropping git event''
       \<lparr>EventID = ident, EventType = ''git_commit'', Timestamp = now, Data = payload,
        EventProjectID = None\<rparr> q"

text \<open>\<open>FileWatcher.emitEvent\<close>; \<open>stat\<close> is the payload read from the file, if it could be read.\<close>

definition file_emitEvent :: "string \<Rightarrow> time \<Rightarrow> (string \<times> string) list option \<Rightarrow> Chan \<Rightarrow> Chan \<times> string list" where
  "file_emitEvent ident now stat q =
     (case stat of
        None \<Rightarrow> (q, [])
      | Some payload \<Rightarrow>
          send_or_drop ''Event queue full, dropping file event''
            \<lparr>EventID = ident, EventType = ''file_change'', Timestamp = now, Data = payload,
             EventProjectID = None\<rparr> q)"

text \<open>\<open>TerminalWatcher.emitEvent\<close>.\<close>

definition terminal_emitEvent :: "string \<Rightarrow> time \<Rightarrow> string \<Rightarrow> Chan \<Rightarrow> Chan \<times> string list" where
  "terminal_emitEvent ident now cmd q =
     send_or_drop ''Event queue full, dropping terminal event''
       \<lparr>EventID = ident, EventType = ''terminal_cmd'', Timestamp = now,
        Data = [(''command'', cmd)], EventProjectID = None\<rparr> q"


section \<open>The command line and the assistant-facing server (cmd, internal/mcp)\<close>

definition Join :: "string list \<Rightarrow> string \<Rightarrow> string" where
  "Join elems sep = (case elems of [] \<Rightarrow> [] | x # xs \<Rightarrow> foldl (\<lambda>acc y. acc @ sep @ y) x xs)"

definition truncate_text :: "string \<Rightarrow> nat \<Rightarrow> string" where
  "truncate_text s maxLen = (if length s \<le> maxLen then s else take (maxLen - 3) s @ ''...'')"

text \<open>
  What \<open>remember\<close> prints. The database file is \<open>None\<close> while it does not exist. The
  flags are \<open>None\<close> when not given, and then take the defaults registered in \<open>init\<close>.
\<close>

datatype printed = NotInitialized | MemoryCreated string string string

definition rememberCmd ::
  "string \<Rightarrow> time \<Rightarrow> string list \<Rightarrow> string option \<Rightarrow> string list option \<Rightarrow> Store option
     \<Rightarrow> (error + printed) \<times> Store option" where
  "rememberCmd ident now args type_flag topics_flag db =
     (let content = Join args '' '' in
      case db of
        None \<Rightarrow> (Inr NotInitialized, None)
      | Some s \<Rightarrow>
          (let memoryType = (case type_flag of None \<Rightarrow> ''fact'' | Some t \<Rightarrow> t);
               topics = (case topics_flag of None \<Rightarrow> [] | Some ts \<Rightarrow> ts);
               memory =
                 \<lparr>ID = ident,
                  Type = memoryType,
                  Content = content,
                  Summary = truncate_text content 100,
                  Scope = MemoryScopePersonal,
                  ProjectID = None,
                  TeamID = None,
                  Source = \<lparr>SourceType = SourceTypeManual, Reference = ''cli'',
                            SourceTimestamp = now\<rparr>,
                  Confidence = 1.0,
                  Importance = 1.0,
                  Topics = Some topics,
                  RelatedMemories = None,
                  CreatedAt = now,
                  LastAccessedAt = now,
                  AccessCount = 0,
                  ExpiresAt = None\<rparr>
           in case CreateMemory memory s of
                Inl err \<Rightarrow> (Inl err, Some s)
              | Inr s' \<Rightarrow> (Inr (MemoryCreated (ID memory) (Type memory) (Content memory)), Some s')))"

text \<open>
  \<open>handleRemember\<close> of the server: the parameters as decoded from the arguments (a field
  that is absent is empty), the text of the result it sends, and the store afterwards.
\<close>

record RememberParams =
  ParContent :: string
  ParType :: string

definition handleRemember :: "RememberParams \<Rightarrow> Store \<Rightarrow> string \<times> Store" where
  "handleRemember params s =
     (let t = (if ParType params = [] then ''fact'' else ParType params);
          text = ''Remembered: '' @ ParContent params @ '' (type: '' @ t @ '')''
      in (text, s))"


section \<open>The stores the program reaches\<close>

text \<open>
  The stores that arise from an empty database by the operations above: the agent stores
  dequeued events, processes batches with the Ollama extractor and runs the decay task;
  the command line remembers and recalls.
\<close>

inductive reachable :: "Store \<Rightarrow> bool" where
  reach_migrate: "reachable migrate"
| reach_event: "reachable s \<Longrightarrow> CreateEvent e s = Inr s' \<Longrightarrow> reachable s'"
| reach_batch: "reachable s \<Longrightarrow> reachable (processBatch (Extract r) rd evs s)"
| reach_decay: "reachable s \<Longrightarrow> reachable (DecayImportance now s)"
| reach_recall: "reachable s \<Longrightarrow> reachable (snd (Recall enc clock req s))"
| reach_remember:
    "reachable s \<Longrightarrow> rememberCmd ident now args tf ts (Some s) = (out, Some s') \<Longrightarrow> reachable s'"

definition lookup :: "Store \<Rightarrow> string \<Rightarrow> Memory option" where
  "lookup s k = find (\<lambda>m. ID m = k) (memories s)"

text \<open>The bounds that every stored memory is shown to keep.\<close>

definition in_bounds :: "Memory \<Rightarrow> bool" where
  "in_bounds m \<longleftrightarrow> 0.099 < Importance m \<and> Importance m \<le> 1 \<and> 0.6 \<le> Confidence m"

definition store_ok :: "Store \<Rightarrow> bool" where
  "store_ok s \<longleftrightarrow> distinct (map ID (memories s)) \<and> (\<forall>m \<in> set (memories s). in_bounds m)"




section \<open>Sample data\<close>


definition sample_event :: "string \<Rightarrow> Event" where
  "sample_event ident =
     \<lparr>EventID = ident, EventType = ''terminal_cmd'', Timestamp = 0,
      Data = [(''command'', ''go test ./...'')], EventProjectID = None\<rparr>"

definition sample_candidate :: "string \<Rightarrow> real \<Rightarrow> ExtractedMemory" where
  "sample_candidate ty conf =
     \<lparr>ExType = ty, ExContent = ''Chose PostgreSQL for ACID compliance'',
      ExSummary = ''Chose PostgreSQL'', ExConfidence = conf, ExTopics = Some [''database'']\<rparr>"

definition sample_readings :: Readings where
  "sample_readings = \<lparr>ulid_at = (\<lambda>i. replicate (Suc i) CHR ''m''), now_at = (\<lambda>i. 5), marked_at = (\<lambda>i. 9)\<rparr>"






definition remembered :: Store where
  "remembered =
     (case snd (rememberCmd ''m1'' 0 [''Use'', ''PKCE''] None None (Some migrate)) of
        None \<Rightarrow> migrate
      | Some s \<Rightarrow> s)"

text \<open>A store after \<open>n\<close> daily runs of the decay task, the first two days after time 0.\<close>

fun decayed :: "nat \<Rightarrow> Store \<Rightarrow> Store" where
  "decayed 0 s = s"
| "decayed (Suc n) s = DecayImportance (int (n + 2) * day) (decayed n s)"


section \<open>Evaluating the case fold\<close>

lemma fold_case_simps:
  "fold_case CHR ''A'' = CHR ''a''"
  "fold_case CHR ''B'' = CHR ''b''"
  "fold_case CHR ''C'' = CHR ''c''"
  "fold_case CHR ''D'' = CHR ''d''"
  "fold_case CHR ''E'' = CHR ''e''"
  "fold_case CHR ''F'' = CHR ''f''"
  "fold_case CHR ''G'' = CHR ''g''"
  "fold_case CHR ''H'' = CHR ''h''"
  "fold_case CHR ''I'' = CHR ''i''"
  "fold_case CHR ''J'' = CHR ''j''"
  "fold_case CHR ''K'' = CHR ''k''"
  "fold_case CHR ''L'' = CHR ''l''"
  "fold_case CHR ''M'' = CHR ''m''"
  "fold_case CHR ''N'' = CHR ''n''"
  "fold_case CHR ''O'' = CHR ''o''"
  "fold_case CHR ''P'' = CHR ''p''"
  "fold_case CHR ''Q'' = CHR ''q''"
  "fold_case CHR ''R'' = CHR ''r''"
  "fold_case CHR ''S'' = CHR ''s''"
  "fold_case CHR ''T'' = CHR ''t''"
  "fold_case CHR ''U'' = CHR ''u''"
  "fold_case CHR ''V'' = CHR ''v''"
  "fold_case CHR ''W'' = CHR ''w''"
  "fold_case CHR ''X'' = CHR ''x''"
  "fold_case CHR ''Y'' = CHR ''y''"
  "fold_case CHR ''Z'' = CHR ''z''"
  "fold_case CHR ''a'' = CHR ''a''"
  "fold_case CHR ''b'' = CHR ''b''"
  "fold_case CHR ''c'' = CHR ''c''"
  "fold_case CHR ''d'' = CHR ''d''"
  "fold_case CHR ''e'' = CHR ''e''"
  "fold_case CHR ''f'' = CHR ''f''"
  "fold_case CHR ''g'' = CHR ''g''"
  "fold_case CHR ''h'' = CHR ''h''"
  "fold_case CHR ''i'' = CHR ''i''"
  "fold_case CHR ''j'' = CHR ''j''"
  "fold_case CHR ''k'' = CHR ''k''"
  "fold_case CHR ''l'' = CHR ''l''"
  "fold_case CHR ''m'' = CHR ''m''"
  "fold_case CHR ''n'' = CHR ''n''"
  "fold_case CHR ''o'' = CHR ''o''"
  "fold_case CHR ''p'' = CHR ''p''"
  "fold_case CHR ''q'' = CHR ''q''"
  "fold_case CHR ''r'' = CHR ''r''"
  "fold_case CHR ''s'' = CHR ''s''"
  "fold_case CHR ''t'' = CHR ''t''"
  "fold_case CHR ''u'' = CHR ''u''"
  "fold_case CHR ''v'' = CHR ''v''"
  "fold_case CHR ''w'' = CHR ''w''"
  "fold_case CHR ''x'' = CHR ''x''"
  "fold_case CHR ''y'' = CHR ''y''"
  "fold_case CHR ''z'' = CHR ''z''"
  "fold_case CHR '' '' = CHR '' ''"
  "fold_case CHR ''['' = CHR ''[''"
  "fold_case CHR '']'' = CHR '']''"
  "fold_case CHR '','' = CHR '',''"
  "fold_case CHR ''_'' = CHR ''_''"
  "fold_case CHR ''%'' = CHR ''%''"
  "fold_case (CHR 0x22) = CHR 0x22"
  by (simp_all add: fold_case_def)


section \<open>Importance decay\<close>




section \<open>Queue overflow\<close>

text \<open>
  Claim C8. When the event queue already holds its 10000 entries, each of the three
  producers returns with the queue exactly as it was: the new event is dropped, the
  events held are unchanged, and the only trace is the logged line. The functions have
  no error result, and the send is the \<open>default\<close> branch of a \<open>select\<close>, which does not wait.
\<close>

theorem queue_full_drop:
  assumes "capacity q = 10000" and "length (buffered q) = 10000"
  shows "git_emit ident now payload q = (q, [''Event queue full, dropping git event'']) \<and>
         file_emitEvent ident now (Some payload) q = (q, [''Event queue full, dropping file event'']) \<and>
         terminal_emitEvent ident now cmd q = (q, [''Event queue full, dropping terminal event''])"
  using assms
  by (simp add: git_emit_def file_emitEvent_def terminal_emitEvent_def send_or_drop_def)

theorem queue_full_drop_witness:
  "capacity (eventQueue\<lparr>buffered := replicate 10000 (sample_event ''e'')\<rparr>) = 10000 \<and>
   length (buffered (eventQueue\<lparr>buffered := replicate 10000 (sample_event ''e'')\<rparr>)) = 10000 \<and>
   fst (terminal_emitEvent ''f'' 7 ''go build'' (eventQueue\<lparr>buffered := replicate 10000 (sample_event ''e'')\<rparr>))
     = eventQueue\<lparr>buffered := replicate 10000 (sample_event ''e'')\<rparr>"
  using queue_full_drop [of "eventQueue\<lparr>buffered := replicate 10000 (sample_event ''e'')\<rparr>" "''f''" 7 "[]" "''go build''"]
  by (simp add: eventQueue_def)


section \<open>Processing a batch\<close>

lemma memories_MarkEventProcessed: "memories (MarkEventProcessed t k s) = memories s"
  by (simp add: MarkEventProcessed_def)

lemma memories_mark_events: "memories (mark_events rd i evs s) = memories s"
  by (induction evs arbitrary: i s) (simp_all add: memories_MarkEventProcessed)

lemma mark_events_rows:
  "length (events (mark_events rd i evs s)) = length (events s) \<and>
   (\<forall>k < length (events s).
      event (events (mark_events rd i evs s) ! k) = event (events s ! k) \<and>
      (EventID (event (events s ! k)) \<in> EventID ` set evs \<longrightarrow>
         processed_at (events (mark_events rd i evs s) ! k) \<noteq> None) \<and>
      (processed_at (events s ! k) \<noteq> None \<longrightarrow>
         processed_at (events (mark_events rd i evs s) ! k) \<noteq> None))"
proof (induction evs arbitrary: i s)
  case Nil
  show ?case by simp
next
  case (Cons e es)
  let ?s1 = "MarkEventProcessed (marked_at rd i) (EventID e) s"
  have len: "length (events ?s1) = length (events s)"
    by (simp add: MarkEventProcessed_def)
  have row: "\<And>k. k < length (events s) \<Longrightarrow>
      event (events ?s1 ! k) = event (events s ! k) \<and>
      (EventID (event (events s ! k)) = EventID e \<longrightarrow> processed_at (events ?s1 ! k) \<noteq> None) \<and>
      (processed_at (events s ! k) \<noteq> None \<longrightarrow> processed_at (events ?s1 ! k) \<noteq> None)"
    by (simp add: MarkEventProcessed_def)
  from Cons.IH [of "Suc i" ?s1] len row show ?case
    by (simp del: mark_events.simps add: mark_events.simps(2) [of rd i e es s])
qed

text \<open>
  Claim C5. When the extractor returns an error for a batch whose events are in the store
  (the event loop stores each event before it batches it), \<open>processBatch\<close> creates no
  memory, keeps every event row, and leaves every event of the batch marked processed.
  \<open>processBatch\<close> has no error result and calls the extractor once.
\<close>

theorem extraction_failure:
  assumes "extract evs = Inl err"
    and "EventID ` set evs \<subseteq> EventID ` event ` set (events s)"
  shows "memories (processBatch extract rd evs s) = memories s \<and>
         map event (events (processBatch extract rd evs s)) = map event (events s) \<and>
         (\<forall>e \<in> set evs. \<exists>r \<in> set (events (processBatch extract rd evs s)).
             EventID (event r) = EventID e \<and> processed_at r \<noteq> None)"
proof -
  have pb: "processBatch extract rd evs s = mark_events rd 0 evs s"
    using assms(1) by (simp add: processBatch_def)
  note rows = mark_events_rows [of rd 0 evs s]
  have "map event (events (mark_events rd 0 evs s)) = map event (events s)"
    using rows by (auto intro: nth_equalityI)
  moreover have "\<exists>r \<in> set (events (mark_events rd 0 evs s)).
             EventID (event r) = EventID e \<and> processed_at r \<noteq> None" if "e \<in> set evs" for e
  proof -
    from that assms(2) obtain r0 where "r0 \<in> set (events s)" "EventID (event r0) = EventID e"
      by auto
    then obtain k where k: "k < length (events s)" "events s ! k = r0"
      by (auto simp: in_set_conv_nth)
    with rows that \<open>EventID (event r0) = EventID e\<close>
    have "event (events (mark_events rd 0 evs s) ! k) = event r0"
      "processed_at (events (mark_events rd 0 evs s) ! k) \<noteq> None"
      by auto
    moreover have "events (mark_events rd 0 evs s) ! k \<in> set (events (mark_events rd 0 evs s))"
      using k rows by simp
    ultimately show ?thesis using \<open>EventID (event r0) = EventID e\<close> by metis
  qed
  ultimately show ?thesis
    by (simp add: pb memories_mark_events)
qed

theorem extraction_failure_witness:
  "(let s = \<lparr>memories = [], events = [\<lparr>event = sample_event ''e1'', processed_at = None\<rparr>,
                                       \<lparr>event = sample_event ''e2'', processed_at = None\<rparr>]\<rparr>;
        rd = \<lparr>ulid_at = (\<lambda>i. ''m''), now_at = (\<lambda>i. 5), marked_at = (\<lambda>i. 9)\<rparr>;
        evs = [sample_event ''e1'', sample_event ''e2'']
    in Extract NoResponse evs = Inl RequestFailed \<and>
       processBatch (Extract NoResponse) rd evs s =
         \<lparr>memories = [], events = [\<lparr>event = sample_event ''e1'', processed_at = Some 9\<rparr>,
                                   \<lparr>event = sample_event ''e2'', processed_at = Some 9\<rparr>]\<rparr>)"
  using extraction_failure [of "Extract NoResponse" "[sample_event ''e1'', sample_event ''e2'']" RequestFailed
      "\<lparr>memories = [], events = [\<lparr>event = sample_event ''e1'', processed_at = None\<rparr>,
                                       \<lparr>event = sample_event ''e2'', processed_at = None\<rparr>]\<rparr>"
      "\<lparr>ulid_at = (\<lambda>i. ''m''), now_at = (\<lambda>i. 5), marked_at = (\<lambda>i. 9)\<rparr>"]
  by (simp add: Extract_def processBatch_def MarkEventProcessed_def sample_event_def)

section \<open>Invariants of the reachable stores\<close>

lemma ok_CreateMemory:
  assumes "store_ok s" and "CreateMemory m s = Inr s'" and "Importance m = 1" and "0.6 \<le> Confidence m"
  shows "store_ok s'"
  using assms by (auto simp: store_ok_def CreateMemory_def in_bounds_def split: if_splits)

lemma ok_create_memories:
  assumes "store_ok s" and "\<forall>c \<in> set cs. 0.6 \<le> ExConfidence c"
  shows "store_ok (create_memories rd i cs s)"
  using assms
proof (induction cs arbitrary: i s)
  case Nil
  then show ?case by simp
next
  case (Cons c cs)
  show ?case
  proof (cases "CreateMemory (extracted_memory (ulid_at rd i) (now_at rd i) c) s")
    case (Inl err)
    with Cons show ?thesis by simp
  next
    case (Inr s')
    have "store_ok s'"
      using Cons.prems Inr by (auto intro!: ok_CreateMemory [OF _ Inr] simp: extracted_memory_def)
    with Cons Inr show ?thesis by simp
  qed
qed

lemma ok_memories_eq: "memories s' = memories s \<Longrightarrow> store_ok s \<Longrightarrow> store_ok s'"
  by (simp add: store_ok_def)

lemma ok_processBatch: "store_ok s \<Longrightarrow> store_ok (processBatch (Extract r) rd evs s)"
  by (auto simp: processBatch_def Extract_def memories_mark_events split: sum.splits reply.splits if_splits
      intro!: ok_memories_eq [OF memories_mark_events] ok_create_memories)

lemma ok_DecayImportance: "store_ok s \<Longrightarrow> store_ok (DecayImportance now s)"
proof -
  assume a: "store_ok s"
  define f where "f = (\<lambda>m. if decays now m then m\<lparr>Importance := Importance m * 0.99\<rparr> else m)"
  have mem: "memories (DecayImportance now s) = map f (memories s)"
    by (simp add: DecayImportance_def f_def)
  have "ID (f m) = ID m" for m
    by (simp add: f_def)
  then have ids: "map ID (map f (memories s)) = map ID (memories s)"
    by simp
  have "in_bounds m \<Longrightarrow> in_bounds (f m)" for m
    by (auto simp: in_bounds_def decays_def f_def)
  with a have "\<forall>m \<in> set (memories s). in_bounds (f m)"
    by (simp add: store_ok_def)
  with a ids show ?thesis
    unfolding store_ok_def mem by (simp del: map_map)
qed

lemma in_bounds_boost: "in_bounds m \<Longrightarrow> in_bounds (boost t m)"
  by (auto simp: in_bounds_def boost_def min_def)

lemma ok_recordAccess: "store_ok s \<Longrightarrow> store_ok (recordAccess t k s)"
proof -
  assume a: "store_ok s"
  have "ID (if ID m = k then boost t m else m) = ID m" for m
    by (simp add: boost_def)
  then have ids: "map ID (memories (recordAccess t k s)) = map ID (memories s)"
    by (simp add: recordAccess_def)
  from a show ?thesis
    by (auto simp: store_ok_def ids) (auto simp: recordAccess_def in_bounds_boost)
qed

lemma ok_record_rows: "store_ok s \<Longrightarrow> store_ok (record_rows clock i rows s)"
  by (induction rows arbitrary: i s) (simp_all add: ok_recordAccess)

lemma ok_rememberCmd:
  assumes "store_ok s" and "rememberCmd ident now args tf ts (Some s) = (out, Some s')"
  shows "store_ok s'"
  using assms
  by (auto simp: rememberCmd_def Let_def split: sum.splits elim!: ok_CreateMemory [rotated])

lemma ok_CreateEvent: "store_ok s \<Longrightarrow> CreateEvent e s = Inr s' \<Longrightarrow> store_ok s'"
  by (auto simp: CreateEvent_def store_ok_def split: if_splits)

lemma reachable_ok: "reachable s \<Longrightarrow> store_ok s"
proof (induction rule: reachable.induct)
  case reach_migrate
  show ?case by (simp add: store_ok_def migrate_def)
next
  case (reach_recall s enc clock req)
  then show ?case by (simp add: Recall_def Let_def ok_record_rows)
qed (auto intro: ok_CreateEvent ok_processBatch ok_DecayImportance ok_rememberCmd)


section \<open>The importance floor\<close>

lemma remembered_eq:
  "remembered = \<lparr>memories = [\<lparr>ID = ''m1'', Type = ''fact'', Content = ''Use PKCE'',
      Summary = ''Use PKCE'', Scope = ''personal'', ProjectID = None, TeamID = None,
      Source = \<lparr>SourceType = ''manual'', Reference = ''cli'', SourceTimestamp = 0\<rparr>,
      Confidence = 1, Importance = 1, Topics = Some [], RelatedMemories = None,
      CreatedAt = 0, LastAccessedAt = 0, AccessCount = 0, ExpiresAt = None\<rparr>], events = []\<rparr>"
  by (simp add: remembered_def rememberCmd_def CreateMemory_def migrate_def Join_def truncate_text_def Let_def
      check_type_def check_scope_def MemoryScopePersonal_def SourceTypeManual_def)

lemma reachable_remembered: "reachable remembered"
proof -
  have "rememberCmd ''m1'' 0 [''Use'', ''PKCE''] None None (Some migrate) =
          (Inr (MemoryCreated ''m1'' ''fact'' ''Use PKCE''), Some remembered)"
    unfolding remembered_eq
    by (simp add: rememberCmd_def CreateMemory_def migrate_def Join_def truncate_text_def Let_def
      check_type_def check_scope_def MemoryScopePersonal_def SourceTypeManual_def)
  then show ?thesis
    using reach_migrate reach_remember by blast
qed

lemma pow16: "(0.85145777::real) \<le> 0.99 ^ 16" "(0.99::real) ^ 16 \<le> 0.85145778"
  by (simp_all add: power_divide)

lemma pow229: "(0.1::real) < 0.99 ^ 229"
proof -
  have "(0.1::real) < 0.85145777 ^ 14 * 0.99 ^ 5"
    by (simp add: power_divide)
  also have "\<dots> \<le> (0.99 ^ 16) ^ 14 * 0.99 ^ 5"
    by (intro mult_right_mono power_mono pow16) simp_all
  also have "\<dots> = 0.99 ^ 229"
    by (simp only: power_mult [symmetric] power_add [symmetric]) simp
  finally show ?thesis .
qed

lemma pow230: "(0.99::real) ^ 230 < 0.1"
proof -
  have "(0.99::real) ^ 230 = (0.99 ^ 16) ^ 14 * 0.99 ^ 6"
    by (simp only: power_mult [symmetric] power_add [symmetric]) simp
  also have "\<dots> \<le> 0.85145778 ^ 14 * 0.99 ^ 6"
    by (intro mult_right_mono power_mono pow16) simp_all
  also have "\<dots> < 0.1"
    by (simp add: power_divide)
  finally show ?thesis .
qed

lemma reachable_decayed: "reachable s \<Longrightarrow> reachable (decayed n s)"
  by (induction n) (simp_all add: reach_decay)

lemma decayed_remembered:
  "n \<le> 230 \<Longrightarrow> memories (decayed n remembered) =
      map (\<lambda>m. m\<lparr>Importance := 0.99 ^ n\<rparr>) (memories remembered)"
proof (induction n)
  case 0
  show ?case by (simp add: remembered_eq)
next
  case (Suc n)
  then have n: "n \<le> 229" by simp
  have "(0.99::real) ^ 229 \<le> 0.99 ^ n"
    using n by (intro power_decreasing) simp_all
  with pow229 have big: "(0.1::real) < 0.99 ^ n" by linarith
  have "day < int (n + 2) * day"
    by (simp add: day_def)
  with big Suc.IH n show ?case
    by (simp add: remembered_eq DecayImportance_def decays_def)
qed

text \<open>
  Claim C10. In every store the program reaches, every memory has importance strictly
  above 0.099: a boost does not lower it, and a decay step, which applies only above 0.1,
  leaves it above 0.099. The decay task does take importance below 0.1: 230 daily runs
  over a freshly remembered memory that is never recalled leave it below 0.1.
\<close>

theorem importance_floor:
  "(reachable s \<longrightarrow>
      (\<forall>m \<in> set (memories s).
         0.099 < Importance m \<and>
         Importance m \<le> Importance (boost t m) \<and>
         (decays now m \<longrightarrow> 0.099 < Importance m * 0.99))) \<and>
   (\<exists>s'. reachable s' \<and> (\<exists>m \<in> set (memories s'). Importance m < 0.1))"
proof (intro conjI impI ballI)
  fix m assume "reachable s" "m \<in> set (memories s)"
  then have "in_bounds m"
    using reachable_ok by (auto simp: store_ok_def)
  then show "0.099 < Importance m" "Importance m \<le> Importance (boost t m)"
    by (auto simp: in_bounds_def boost_def min_def)
  show "0.099 < Importance m * 0.99" if "decays now m"
    using that by (simp add: decays_def)
next
  have "memories (decayed 230 remembered) =
          map (\<lambda>m. m\<lparr>Importance := 0.99 ^ 230\<rparr>) (memories remembered)"
    by (rule decayed_remembered) simp
  then have "\<exists>m \<in> set (memories (decayed 230 remembered)). Importance m < 0.1"
    using pow230 by (simp add: remembered_eq)
  moreover have "reachable (decayed 230 remembered)"
    by (rule reachable_decayed [OF reachable_remembered])
  ultimately show "\<exists>s'. reachable s' \<and> (\<exists>m \<in> set (memories s'). Importance m < 0.1)"
    by blast
qed

theorem importance_floor_witness:
  "reachable (decayed 1 remembered) \<and>
   map Importance (memories (decayed 1 remembered)) = [0.99] \<and>
   list_all (\<lambda>m. 0.099 < Importance m) (memories (decayed 1 remembered))"
  using importance_floor [of "decayed 1 remembered" 0 0] reachable_decayed [OF reachable_remembered, of 1]
    decayed_remembered [of 1]
  by (simp add: remembered_eq)

section \<open>The access boost of recall\<close>

lemma ID_boost: "ID (boost t m) = ID m"
  by (simp add: boost_def)

lemma find_boosted:
  "find (\<lambda>m. ID m = k') (map (\<lambda>m. if ID m = k then boost t m else m) xs) =
     (if k' = k then map_option (boost t) (find (\<lambda>m. ID m = k) xs) else find (\<lambda>m. ID m = k') xs)"
  by (induction xs) (auto simp: ID_boost)

lemma lookup_recordAccess:
  "lookup (recordAccess t k s) k' =
     (if k' = k then map_option (boost t) (lookup s k) else lookup s k')"
  by (simp add: lookup_def recordAccess_def find_boosted)

lemma lookup_record_rows_other:
  "k \<notin> ID ` set rows \<Longrightarrow> lookup (record_rows clock j rows s) k = lookup s k"
  by (induction rows arbitrary: j s) (auto simp: lookup_recordAccess)

lemma lookup_record_rows_nth:
  "distinct (map ID rows) \<Longrightarrow> i < length rows \<Longrightarrow>
   lookup (record_rows clock j rows s) (ID (rows ! i)) =
     map_option (boost (clock (j + i))) (lookup s (ID (rows ! i)))"
proof (induction rows arbitrary: i j s)
  case Nil
  then show ?case by simp
next
  case (Cons r rows)
  show ?case
  proof (cases i)
    case 0
    with Cons.prems show ?thesis
      by (simp add: lookup_record_rows_other lookup_recordAccess)
  next
    case (Suc i')
    with Cons.prems have "ID (rows ! i') \<noteq> ID r"
      by (metis Suc_less_eq distinct.simps(2) length_Cons length_map list.simps(9) nth_map nth_mem)
    with Cons.prems Suc Cons.IH [of i' "Suc j" "recordAccess (clock j) (ID r) s"]
    show ?thesis
      by (simp add: lookup_recordAccess)
  qed
qed

lemma events_record_rows: "events (record_rows clock j rows s) = events s"
  by (induction rows arbitrary: j s) (simp_all add: recordAccess_def)

lemma lookup_member:
  "distinct (map ID xs) \<Longrightarrow> m \<in> set xs \<Longrightarrow> find (\<lambda>x. ID x = ID m) xs = Some m"
  by (induction xs) (auto simp: rev_image_eqI)

lemma set_query_rows: "set (query_rows enc req s) \<subseteq> {m \<in> set (memories s). selects enc req m}"
  by (auto simp: query_rows_def dest!: in_set_takeD)

lemma distinct_query_rows:
  assumes "distinct (map ID (memories s))"
  shows "distinct (map ID (query_rows enc req s))"
proof -
  let ?f = "filter (selects enc req) (memories s)"
  have "distinct (map ID ?f)"
    using assms by (rule distinct_map_filter)
  then have "distinct (map ID (sort_key order_key ?f))"
    by (simp add: distinct_map)
  then show ?thesis
    unfolding query_rows_def by (simp add: take_map [symmetric] del: take_map)
qed

text \<open>
  Claim C2. In a store the program reaches, row \<open>i\<close> of a recall is a stored memory, and
  after the recall the memory with that identifier is the same record with its
  last-accessed time set to the clock reading of that access, its access count one higher
  and its importance \<open>min 1 (importance * 1.05)\<close>. That value is strictly larger than
  before while the importance is below 1 and never exceeds 1. Memories that are not
  returned, and the events, are as they were.
\<close>

theorem recall_access_boost:
  assumes "reachable s" and "Recall enc clock req s = (rows, s')" and "i < length rows"
  shows "lookup s (ID (rows ! i)) = Some (rows ! i) \<and>
         lookup s' (ID (rows ! i)) =
           Some ((rows ! i)\<lparr>LastAccessedAt := clock i,
                             AccessCount := AccessCount (rows ! i) + 1,
                             Importance := min 1.0 (Importance (rows ! i) * 1.05)\<rparr>) \<and>
         (Importance (rows ! i) < 1 \<longrightarrow>
            Importance (rows ! i) < min 1.0 (Importance (rows ! i) * 1.05)) \<and>
         min 1.0 (Importance (rows ! i) * 1.05) \<le> 1 \<and>
         (\<forall>k. k \<notin> ID ` set rows \<longrightarrow> lookup s' k = lookup s k) \<and>
         events s' = events s"
proof -
  from assms(2) have rows: "rows = query_rows enc req s" and s': "s' = record_rows clock 0 rows s"
    by (auto simp: Recall_def Let_def)
  from assms(1) have ok: "store_ok s"
    by (rule reachable_ok)
  then have d: "distinct (map ID (memories s))"
    by (simp add: store_ok_def)
  have mem: "rows ! i \<in> set (memories s)"
    using set_query_rows [of enc req s] assms(3) rows by (metis (no_types, lifting) mem_Collect_eq nth_mem subsetD)
  have before: "lookup s (ID (rows ! i)) = Some (rows ! i)"
    unfolding lookup_def using d mem by (rule lookup_member)
  have "lookup s' (ID (rows ! i)) = map_option (boost (clock (0 + i))) (lookup s (ID (rows ! i)))"
    unfolding s' using distinct_query_rows [OF d, of enc req] assms(3) rows
    by (intro lookup_record_rows_nth) simp_all
  with before have after: "lookup s' (ID (rows ! i)) = Some (boost (clock i) (rows ! i))"
    by simp
  from ok mem have "in_bounds (rows ! i)"
    by (simp add: store_ok_def)
  then have up: "Importance (rows ! i) < 1 \<longrightarrow>
            Importance (rows ! i) < min 1.0 (Importance (rows ! i) * 1.05)"
    by (auto simp: in_bounds_def min_def)
  show ?thesis
    using before after up
    by (simp add: s' lookup_record_rows_other events_record_rows boost_def)
qed

theorem recall_access_boost_witness:
  "reachable remembered \<and>
   Recall (\<lambda>t. ''[]'') (\<lambda>i. 50) \<lparr>Query = ''pkce'', ReqScope = [], ReqProjectID = None, ReqTypes = [], Limit = 0\<rparr>
     remembered = (memories remembered, \<lparr>memories = map (boost 50) (memories remembered), events = []\<rparr>) \<and>
   lookup \<lparr>memories = map (boost 50) (memories remembered), events = []\<rparr> ''m1'' =
     Some ((memories remembered ! 0)\<lparr>LastAccessedAt := 50, AccessCount := 1, Importance := 1\<rparr>)"
  using recall_access_boost [of remembered "\<lambda>t. ''[]''" "\<lambda>i. 50"
      "\<lparr>Query = ''pkce'', ReqScope = [], ReqProjectID = None, ReqTypes = [], Limit = 0\<rparr>"
      "memories remembered" "\<lparr>memories = map (boost 50) (memories remembered), events = []\<rparr>" 0]
    reachable_remembered
  by (simp add: remembered_eq Recall_def query_rows_def selects_def searchTerm_def limit_of_def
      recordAccess_def boost_def fold_case_simps lookup_def)

section \<open>The batcher\<close>

lemma CreateEvent_fresh:
  "EventID e \<notin> EventID ` event ` set (events s) \<Longrightarrow>
   CreateEvent e s = Inr (s\<lparr>events := events s @ [\<lparr>event = e, processed_at = None\<rparr>]\<rparr>)"
  by (auto simp: CreateEvent_def)

lemma iteration_flush:
  assumes "\<not> returned l"
    and "EventID e \<notin> EventID ` event ` set (events (store l))"
    and "BatchSize cfg \<le> int (length (batch l)) + 1"
  shows "iteration pb cfg l (Received e) =
           l\<lparr>store := pb (batch l @ [e])
                        ((store l)\<lparr>events := events (store l) @ [\<lparr>event = e, processed_at = None\<rparr>]\<rparr>),
             batch := [],
             calls := calls l @ [ProcessBatch (batch l @ [e]), TimerReset]\<rparr>"
  using assms by (simp add: iteration_def CreateEvent_fresh Let_def)

lemma received_below_size:
  assumes "\<not> returned l"
    and "int (length (batch l) + length evs) < BatchSize cfg"
    and "distinct (map EventID evs)"
    and "EventID ` set evs \<inter> EventID ` event ` set (events (store l)) = {}"
  shows "processEvents pb cfg l (map Received evs) =
           l\<lparr>store := (store l)\<lparr>events := events (store l) @
                                   map (\<lambda>e. \<lparr>event = e, processed_at = None\<rparr>) evs\<rparr>,
             batch := batch l @ evs\<rparr>"
  using assms
proof (induction evs arbitrary: l)
  case Nil
  show ?case by (simp add: processEvents_def)
next
  case (Cons e evs)
  let ?s1 = "(store l)\<lparr>events := events (store l) @ [\<lparr>event = e, processed_at = None\<rparr>]\<rparr>"
  let ?l1 = "l\<lparr>store := ?s1, batch := batch l @ [e]\<rparr>"
  from Cons.prems(4) have ce: "CreateEvent e (store l) = Inr ?s1"
    by (auto simp: CreateEvent_def)
  with Cons.prems(1,2) have it: "iteration pb cfg l (Received e) = ?l1"
    by (simp add: iteration_def Let_def)
  have "processEvents pb cfg ?l1 (map Received evs) =
          ?l1\<lparr>store := (store ?l1)\<lparr>events := events (store ?l1) @
                                   map (\<lambda>e. \<lparr>event = e, processed_at = None\<rparr>) evs\<rparr>,
               batch := batch ?l1 @ evs\<rparr>"
    using Cons.prems by (intro Cons.IH) auto
  then show ?case
    by (simp add: processEvents_def it)
qed

text \<open>
  Claim C9. With a positive batch size, a running loop whose batch is empty, and
  \<open>BatchSize\<close> events with distinct identifiers that the store does not hold yet (so that
  each is stored), receiving exactly these events with no timer case in between makes
  exactly one call of \<open>processBatch\<close>, on exactly these events in the order received,
  followed by one reset of the timer; the batch is empty again and the loop still runs.
\<close>

theorem flush_on_size:
  assumes "0 < BatchSize cfg"
    and "\<not> returned l" and "batch l = []"
    and "int (length evs) = BatchSize cfg"
    and "distinct (map EventID evs)"
    and "EventID ` set evs \<inter> EventID ` event ` set (events (store l)) = {}"
  shows "calls (processEvents pb cfg l (map Received evs)) = calls l @ [ProcessBatch evs, TimerReset] \<and>
         batch (processEvents pb cfg l (map Received evs)) = [] \<and>
         \<not> returned (processEvents pb cfg l (map Received evs)) \<and>
         store (processEvents pb cfg l (map Received evs)) =
           pb evs ((store l)\<lparr>events := events (store l) @
                                  map (\<lambda>e. \<lparr>event = e, processed_at = None\<rparr>) evs\<rparr>)"
proof -
  from assms(1,4) have "evs \<noteq> []" by auto
  then obtain xs x where evs: "evs = xs @ [x]"
    by (metis rev_exhaust)
  let ?rows = "map (\<lambda>e. \<lparr>event = e, processed_at = None\<rparr>) xs"
  let ?l1 = "l\<lparr>store := (store l)\<lparr>events := events (store l) @ ?rows\<rparr>, batch := batch l @ xs\<rparr>"
  have below: "processEvents pb cfg l (map Received xs) = ?l1"
    using assms unfolding evs by (intro received_below_size) auto
  have "EventID x \<notin> EventID ` set xs"
    using assms(5) unfolding evs by auto
  moreover have "EventID x \<notin> EventID ` event ` set (events (store l))"
    using assms(6) unfolding evs by auto
  ultimately have fresh: "EventID x \<notin> EventID ` event ` set (events (store ?l1))"
    by (auto simp: image_Un image_image)
  have "processEvents pb cfg l (map Received evs) = iteration pb cfg ?l1 (Received x)"
    unfolding evs by (simp add: processEvents_def below [unfolded processEvents_def])
  also have "\<dots> = ?l1\<lparr>store := pb (batch ?l1 @ [x])
                         ((store ?l1)\<lparr>events := events (store ?l1) @ [\<lparr>event = x, processed_at = None\<rparr>]\<rparr>),
                       batch := [], calls := calls ?l1 @ [ProcessBatch (batch ?l1 @ [x]), TimerReset]\<rparr>"
    using assms(2,3,4) fresh unfolding evs by (intro iteration_flush) simp_all
  also have "\<dots> = ?l1\<lparr>store := pb evs ((store l)\<lparr>events := events (store l) @
                                  map (\<lambda>e. \<lparr>event = e, processed_at = None\<rparr>) evs\<rparr>),
                       batch := [], calls := calls l @ [ProcessBatch evs, TimerReset]\<rparr>"
    using assms(3) unfolding evs by simp
  finally show ?thesis
    using assms(2) by simp
qed

theorem flush_on_size_witness:
  "(let cfg = \<lparr>BatchSize = 2, BatchWait = 5\<rparr>;
        rd = \<lparr>ulid_at = (\<lambda>i. ''m''), now_at = (\<lambda>i. 5), marked_at = (\<lambda>i. 9)\<rparr>;
        l = processEvents (processBatch NullExtract rd) cfg (start_loop migrate)
              [Received (sample_event ''e1''), Received (sample_event ''e2'')]
    in calls l = [ProcessBatch [sample_event ''e1'', sample_event ''e2''], TimerReset] \<and>
       batch l = [] \<and>
       events (store l) = [\<lparr>event = sample_event ''e1'', processed_at = Some 9\<rparr>,
                           \<lparr>event = sample_event ''e2'', processed_at = Some 9\<rparr>])"
  using flush_on_size [of "\<lparr>BatchSize = 2, BatchWait = 5\<rparr>" "start_loop migrate"
      "[sample_event ''e1'', sample_event ''e2'']"
      "processBatch NullExtract \<lparr>ulid_at = (\<lambda>i. ''m''), now_at = (\<lambda>i. 5), marked_at = (\<lambda>i. 9)\<rparr>"]
  by (simp add: start_loop_def migrate_def sample_event_def processBatch_def NullExtract_def
      MarkEventProcessed_def)

section \<open>Accepting candidates\<close>

text \<open>
  The memories \<open>create_memories\<close> appends: candidate number \<open>i\<close> of the list gets the
  readings of iteration \<open>i\<close>, and only the candidates whose type passes the CHECK
  constraint of the table are stored.
\<close>

lemma create_memories_appends:
  assumes "inj_on (ulid_at rd) {j ..< j + length cs}"
    and "\<forall>i \<in> {j ..< j + length cs}. ulid_at rd i \<notin> ID ` set (memories s)"
  shows "memories (create_memories rd j cs s) =
           memories s @
           map (\<lambda>(i, c). extracted_memory (ulid_at rd i) (now_at rd i) c)
             (filter (\<lambda>(i, c). check_type (ExType c)) (enumerate j cs))"
  using assms
proof (induction cs arbitrary: j s)
  case Nil
  show ?case by simp
next
  case (Cons c cs)
  let ?m = "extracted_memory (ulid_at rd j) (now_at rd j) c"
  have inj: "inj_on (ulid_at rd) {Suc j ..< Suc j + length cs}"
    using Cons.prems(1) by (rule inj_on_subset) auto
  have later: "ulid_at rd i \<noteq> ulid_at rd j" if "i \<in> {Suc j ..< Suc j + length cs}" for i
  proof
    assume "ulid_at rd i = ulid_at rd j"
    with Cons.prems(1) that have "i = j"
      by (auto dest!: inj_onD [where x = i and y = j])
    with that show False by simp
  qed
  have fresh: "ulid_at rd j \<notin> ID ` set (memories s)"
    using Cons.prems(2) by simp
  show ?case
  proof (cases "check_type (ExType c)")
    case True
    let ?s' = "s\<lparr>memories := memories s @ [?m]\<rparr>"
    from True fresh have cm: "CreateMemory ?m s = Inr ?s'"
      by (auto simp: CreateMemory_def extracted_memory_def check_scope_def MemoryScopePersonal_def)
    have "\<forall>i \<in> {Suc j ..< Suc j + length cs}. ulid_at rd i \<notin> ID ` set (memories ?s')"
      using Cons.prems(2) later by (auto simp: extracted_memory_def)
    from Cons.IH [OF inj this] cm True show ?thesis
      by simp
  next
    case False
    then have cm: "CreateMemory ?m s = Inl StorageError"
      by (simp add: CreateMemory_def extracted_memory_def)
    have "\<forall>i \<in> {Suc j ..< Suc j + length cs}. ulid_at rd i \<notin> ID ` set (memories s)"
      using Cons.prems(2) by auto
    from Cons.IH [OF inj this] cm False show ?thesis
      by simp
  qed
qed

text \<open>
  Claim C6, as stated, fails: a candidate with confidence 0.9 whose type is not one of
  the six memory types passes the confidence filter, is rejected by the CHECK constraint
  of the table, and is skipped.
\<close>

theorem confident_candidate_rejected:
  "Extract (Parsed [sample_candidate ''idea'' 0.9]) [sample_event ''e1''] =
     Inr [sample_candidate ''idea'' 0.9] \<and>
   0.6 \<le> ExConfidence (sample_candidate ''idea'' 0.9) \<and>
   memories (processBatch (Extract (Parsed [sample_candidate ''idea'' 0.9])) sample_readings
              [sample_event ''e1''] migrate) = []"
  by (simp add: Extract_def sample_candidate_def processBatch_def CreateMemory_def
      extracted_memory_def check_type_def memories_MarkEventProcessed migrate_def)

text \<open>
  Claim C6, amended. When the model answers a non-empty batch with a list of candidates,
  and the identifiers drawn are new and never repeat, the memories after \<open>processBatch\<close>
  are the memories before followed by one new memory for each candidate that has
  confidence at least 0.6 and a type among the six memory types, in the order of the
  answer. Candidates below 0.6 are discarded by the extractor, candidates of another type
  are rejected by the store and skipped, and an empty answer creates nothing.
\<close>

theorem accepted_candidates:
  assumes "evs \<noteq> []"
    and "inj (ulid_at rd)"
    and "range (ulid_at rd) \<inter> ID ` set (memories s) = {}"
  shows "memories (processBatch (Extract (Parsed cs)) rd evs s) =
           memories s @
           map (\<lambda>(i, c). extracted_memory (ulid_at rd i) (now_at rd i) c)
             (filter (\<lambda>(i, c). check_type (ExType c))
                (enumerate 0 (filter (\<lambda>c. 0.6 \<le> ExConfidence c) cs)))"
proof -
  let ?acc = "filter (\<lambda>c. 0.6 \<le> ExConfidence c) cs"
  have "inj_on (ulid_at rd) {0 ..< 0 + length ?acc}"
    using assms(2) by (rule inj_on_subset) simp
  moreover have "\<forall>i \<in> {0 ..< 0 + length ?acc}. ulid_at rd i \<notin> ID ` set (memories s)"
    using assms(3) by blast
  ultimately have "memories (create_memories rd 0 ?acc s) =
           memories s @
           map (\<lambda>(i, c). extracted_memory (ulid_at rd i) (now_at rd i) c)
             (filter (\<lambda>(i, c). check_type (ExType c)) (enumerate 0 ?acc))"
    by (rule create_memories_appends)
  with assms(1) show ?thesis
    by (simp add: processBatch_def Extract_def memories_mark_events)
qed

lemma inj_sample_ulid: "inj (ulid_at sample_readings)"
proof (rule injI)
  fix i j assume "ulid_at sample_readings i = ulid_at sample_readings j"
  then have "length (replicate (Suc i) CHR ''m'') = length (replicate (Suc j) CHR ''m'')"
    by (simp add: sample_readings_def)
  then show "i = j" by simp
qed

theorem accepted_candidates_witness:
  "[sample_event ''e1''] \<noteq> [] \<and> inj (ulid_at sample_readings) \<and>
   range (ulid_at sample_readings) \<inter> ID ` set (memories migrate) = {} \<and>
   memories (processBatch
      (Extract (Parsed [sample_candidate ''decision'' 0.9, sample_candidate ''fact'' 0.5,
                        sample_candidate ''idea'' 0.7, sample_candidate ''fact'' 0.6]))
      sample_readings [sample_event ''e1''] migrate) =
     [extracted_memory ''m'' 5 (sample_candidate ''decision'' 0.9),
      extracted_memory ''mmm'' 5 (sample_candidate ''fact'' 0.6)]"
  using accepted_candidates [of "[sample_event ''e1'']" sample_readings migrate
      "[sample_candidate ''decision'' 0.9, sample_candidate ''fact'' 0.5,
        sample_candidate ''idea'' 0.7, sample_candidate ''fact'' 0.6]"]
    inj_sample_ulid
  by (simp add: migrate_def sample_candidate_def check_type_def sample_readings_def)


section \<open>The range of confidence\<close>

text \<open>
  Claim C1 at a failing input: the model answers with a candidate of confidence 1.5.
  \<open>Extract\<close> keeps it, \<open>processBatch\<close> stores it, and the store the agent has reached
  holds a memory whose confidence is 1.5.
\<close>

theorem confidence_above_one:
  "reachable (processBatch (Extract (Parsed [sample_candidate ''fact'' 1.5])) sample_readings
               [sample_event ''e1''] migrate) \<and>
   map Confidence (memories (processBatch (Extract (Parsed [sample_candidate ''fact'' 1.5]))
                               sample_readings [sample_event ''e1''] migrate)) = [1.5]"
proof
  show "reachable (processBatch (Extract (Parsed [sample_candidate ''fact'' 1.5])) sample_readings
               [sample_event ''e1''] migrate)"
    by (rule reach_batch [OF reach_migrate])
  show "map Confidence (memories (processBatch (Extract (Parsed [sample_candidate ''fact'' 1.5]))
                               sample_readings [sample_event ''e1''] migrate)) = [1.5]"
    by (simp add: Extract_def sample_candidate_def processBatch_def CreateMemory_def
      extracted_memory_def check_type_def check_scope_def MemoryScopePersonal_def
      memories_MarkEventProcessed migrate_def sample_readings_def)
qed

text \<open>The bounds that do hold in every store the program reaches.\<close>

lemma reachable_bounds:
  assumes "reachable s" and "m \<in> set (memories s)"
  shows "0 \<le> Importance m \<and> Importance m \<le> 1 \<and> 0.6 \<le> Confidence m"
  using reachable_ok [OF assms(1)] assms(2) by (auto simp: store_ok_def in_bounds_def)


section \<open>Remember\<close>

text \<open>
  On the command line, with an initialised database, a type among the six memory types
  and a new identifier, \<open>remember\<close> appends one memory with confidence 1, scope personal
  and source manual, and prints its identifier.
\<close>

lemma rememberCmd_creates:
  assumes "check_type (case tf of None \<Rightarrow> ''fact'' | Some t \<Rightarrow> t)"
    and "ident \<notin> ID ` set (memories s)"
  shows "fst (rememberCmd ident now args tf ts (Some s)) =
           Inr (MemoryCreated ident (case tf of None \<Rightarrow> ''fact'' | Some t \<Rightarrow> t) (Join args '' '')) \<and>
         (case snd (rememberCmd ident now args tf ts (Some s)) of
            None \<Rightarrow> False
          | Some s' \<Rightarrow>
              butlast (memories s') = memories s \<and> events s' = events s \<and>
              ID (last (memories s')) = ident \<and>
              Confidence (last (memories s')) = 1 \<and>
              Importance (last (memories s')) = 1 \<and>
              Scope (last (memories s')) = ''personal'' \<and>
              SourceType (Source (last (memories s'))) = ''manual'' \<and>
              Content (last (memories s')) = Join args '' '')"
  using assms
  by (simp add: rememberCmd_def CreateMemory_def Let_def check_scope_def MemoryScopePersonal_def
      SourceTypeManual_def)

lemma handleRemember_store: "snd (handleRemember params s) = s"
  by (simp add: handleRemember_def Let_def)

text \<open>
  Claim C7 at a failing input: the server answers a \<open>memorypilot_remember\<close> call with
  the text that the content was remembered, and its store is as it was: no memory has
  been created and the answer carries no identifier.
\<close>

theorem handleRemember_creates_nothing:
  "handleRemember \<lparr>ParContent = ''Use PKCE for mobile auth'', ParType = ''decision''\<rparr> migrate =
     (''Remembered: Use PKCE for mobile auth (type: decision)'', migrate) \<and>
   memories migrate = []"
  by (simp add: handleRemember_def migrate_def)

section \<open>The result of recall\<close>













end
